theory Spec2Isabelle
  imports Complex_Main
begin

section \<open>Python values\<close>

text \<open>
  The two programs, \<^verbatim>\<open>Mandelbrot_interactive.py\<close> and \<^verbatim>\<open>Mandelbrot_animation.py\<close>,
  compute with Python integers, floats and complex numbers. Integers are \<^typ>\<open>int\<close>.
  A float is the real number it denotes and a complex float a \<^typ>\<open>complex\<close>. An operation
  whose Python result is an exception, or is not a real number (an infinity, a NaN), is
  an \<open>error\<close> value.

  Where a float decides an integer or an exception (\<^verbatim>\<open>int(zoom/2)\<close> and \<^verbatim>\<open>1.5/zoom\<close> in
  \<^verbatim>\<open>onclick\<close>, the animation step, the number of frames) the operations round to a
  double, see \<open>round_double\<close>. The escape-time kernel, the axes of the grid and the values
  of the bounds that \<^verbatim>\<open>onclick\<close> assigns are computed on exact reals (the source's own
  header notes the "slight inaccuracies due to floating point errors").
\<close>

datatype error = ZeroDivisionError | IndexError | ValueError | OverflowError

text \<open>Python's \<^verbatim>\<open>int(x)\<close> on a float: truncation toward zero.\<close>

definition py_int :: "real \<Rightarrow> int" where
  "py_int x = (if 0 \<le> x then \<lfloor>x\<rfloor> else \<lceil>x\<rceil>)"

text \<open>
  Rounding a real number to a double (IEEE 754 binary64, round to nearest, ties to even):
  the unit in the last place of \<open>x\<close> is \<open>2\<^bsup>e - 52\<^esup>\<close> for \<open>2\<^bsup>e\<^esup> \<le> |x| < 2\<^bsup>e + 1\<^esup>\<close>, with \<open>e\<close> not
  below \<open>-1022\<close> (the subnormal numbers), and \<open>x\<close> goes to the nearest multiple of it. A
  result of magnitude \<open>2\<^bsup>1024\<^esup>\<close> or more is no double: \<open>fl_double\<close> is \<open>OverflowError\<close>
  there, which is what Python raises when it converts an integer, divides two integers or
  takes a power, and stands for the infinity of the other operations.
\<close>

definition round_half_even :: "real \<Rightarrow> int" where
  "round_half_even m =
     (let f = \<lfloor>m\<rfloor>; d = m - of_int f
      in if d < 1/2 then f else if 1/2 < d then f + 1 else if even f then f else f + 1)"

definition double_ulp :: "real \<Rightarrow> real" where
  "double_ulp x = 2 powr (of_int (max \<lfloor>log 2 \<bar>x\<bar>\<rfloor> (- 1022)) - 52)"

definition round_double :: "real \<Rightarrow> real" where
  "round_double x =
     (if x = 0 then 0 else of_int (round_half_even (x / double_ulp x)) * double_ulp x)"

definition fl_double :: "real \<Rightarrow> error + real" where
  "fl_double x =
     (let r = round_double x in if 2 ^ 1024 \<le> \<bar>r\<bar> then Inl OverflowError else Inr r)"

text \<open>Arithmetic that does not round, for comparison: every result is kept as it is.\<close>

definition exact :: "real \<Rightarrow> error + real" where
  "exact x = Inr x"

text \<open>The first exception ends the computation.\<close>

definition then_fl :: "error + 'a \<Rightarrow> ('a \<Rightarrow> error + 'b) \<Rightarrow> error + 'b" where
  "then_fl r f = (case r of Inl e \<Rightarrow> Inl e | Inr x \<Rightarrow> f x)"

text \<open>
  Python's \<^verbatim>\<open>float(z)\<close> of an integer, as the float operators apply it to an integer
  operand, and its true division \<^verbatim>\<open>a/b\<close> of two integers, which is the correctly rounded
  quotient.
\<close>

definition py_float :: "int \<Rightarrow> error + real" where
  "py_float z = fl_double (of_int z)"

definition py_int_truediv :: "int \<Rightarrow> int \<Rightarrow> error + real" where
  "py_int_truediv a b =
     (if b = 0 then Inl ZeroDivisionError else fl_double (of_int a / of_int b))"


section \<open>The escape-time kernel: \<^verbatim>\<open>mandel\<close>\<close>

text \<open>
  \<^verbatim>\<open>
  def mandel(c, threshold):
      z = 0 + 1j*0
      for n in range(threshold):
          if (z.real*z.real + z.imag*z.imag)>4:   #if z diverges
              return n
          z = (z * z) + c
      return 0
  \<close>
  The same function stands in both source files. The test of the loop body is named
  \<open>diverged\<close> after its comment; the loop is the recursive function \<open>mandel_loop\<close>, whose
  arguments \<open>z\<close> and \<open>n\<close> are the loop's variables.
\<close>

definition diverged :: "complex \<Rightarrow> bool" where
  "diverged z = (Re z * Re z + Im z * Im z > 4)"

function mandel_loop :: "complex \<Rightarrow> int \<Rightarrow> complex \<Rightarrow> int \<Rightarrow> int" where
  "mandel_loop c threshold z n =
     (if n < threshold then
        (if diverged z then n
         else mandel_loop c threshold ((z * z) + c) (n + 1))
      else 0)"
  by pat_completeness auto
termination
  by (relation "measure (\<lambda>(c, threshold, z, n). nat (threshold - n))") auto

declare mandel_loop.simps [simp del]

definition mandel :: "complex \<Rightarrow> int \<Rightarrow> int" where
  "mandel c threshold = mandel_loop c threshold (Complex 0 0) 0"

text \<open>
  The algorithm as the specification words it: \<open>z\<close> starts at \<open>0\<close> and is replaced by
  \<open>z\<^sup>2 + c\<close>, so before the round numbered \<open>n\<close> it is the \<open>n\<close>-th point of the orbit of
  \<open>0\<close>; the result is the first \<open>n\<close> in \<open>[0, threshold)\<close> whose orbit point has squared
  magnitude above \<open>4\<close>, and \<open>0\<close> when there is none.
\<close>

primrec orbit :: "complex \<Rightarrow> nat \<Rightarrow> complex" where
  "orbit c 0 = 0"
| "orbit c (Suc n) = orbit c n * orbit c n + c"

definition escape_spec :: "complex \<Rightarrow> int \<Rightarrow> int" where
  "escape_spec c threshold =
     (case find (\<lambda>n. (Re (orbit c n))\<^sup>2 + (Im (orbit c n))\<^sup>2 > 4) [0..<nat threshold] of
        Some n \<Rightarrow> int n
      | None \<Rightarrow> 0)"


section \<open>The tile evaluator: \<^verbatim>\<open>mandelbrot_for_parallel\<close>\<close>

text \<open>
  Modelled from the spec: \<^verbatim>\<open>np.linspace\<close> belongs to NumPy, not to this repository. The
  specification gives the axis as \<^verbatim>\<open>re[px] = xmin + px*(xmax-xmin)/(resolution-1)\<close> for
  \<open>px\<close> in \<open>[0, resolution)\<close>.
\<close>

definition linspace :: "real \<Rightarrow> real \<Rightarrow> nat \<Rightarrow> real list" where
  "linspace start stop num =
     map (\<lambda>px. start + real px * (stop - start) / real (num - 1)) [0..<num]"

text \<open>
  \<^verbatim>\<open>
  def mandelbrot_for_parallel(xmin, xmax, ymin, ymax, threshold, yrange):
      re = np.linspace(xmin, xmax, resolution)
      im = np.linspace(ymin, ymax, resolution)
      k_len      = resolution*len(yrange)
      point_vals = np.array([0.0]*k_len)
      k = 0
      for y in yrange:
          for x in range(resolution):
              point_vals[k] = mandel(re[x] + 1j*im[y], threshold)
              k+=1
      return point_vals
  \<close>
  The module's global \<open>resolution\<close> is the first parameter. The loops' state is the pair
  \<open>(point_vals, k)\<close>; \<open>x_loop\<close> is the inner loop and \<open>y_loop\<close> the outer one. An index out
  of range raises \<open>IndexError\<close>.
\<close>

fun x_loop ::
  "real list \<Rightarrow> real list \<Rightarrow> int \<Rightarrow> nat \<Rightarrow> nat list \<Rightarrow> real list \<times> nat \<Rightarrow> error + real list \<times> nat"
where
  "x_loop re im threshold y [] (point_vals, k) = Inr (point_vals, k)"
| "x_loop re im threshold y (x # xs) (point_vals, k) =
     (if x < length re \<and> y < length im \<and> k < length point_vals then
        x_loop re im threshold y xs
          (point_vals[k := of_int (mandel (Complex (re ! x) (im ! y)) threshold)], k + 1)
      else Inl IndexError)"

fun y_loop ::
  "real list \<Rightarrow> real list \<Rightarrow> int \<Rightarrow> nat \<Rightarrow> nat list \<Rightarrow> real list \<times> nat \<Rightarrow> error + real list \<times> nat"
where
  "y_loop re im threshold resolution [] st = Inr st"
| "y_loop re im threshold resolution (y # ys) st =
     (case x_loop re im threshold y [0..<resolution] st of
        Inl e \<Rightarrow> Inl e
      | Inr st' \<Rightarrow> y_loop re im threshold resolution ys st')"

definition mandelbrot_for_parallel ::
  "nat \<Rightarrow> real \<Rightarrow> real \<Rightarrow> real \<Rightarrow> real \<Rightarrow> int \<Rightarrow> nat list \<Rightarrow> error + real list"
where
  "mandelbrot_for_parallel resolution xmin xmax ymin ymax threshold yrange =
     (let re = linspace xmin xmax resolution;
          im = linspace ymin ymax resolution;
          k_len = resolution * length yrange;
          point_vals = replicate k_len 0
      in case y_loop re im threshold resolution yrange (point_vals, 0) of
           Inl e \<Rightarrow> Inl e
         | Inr (point_vals', k) \<Rightarrow> Inr point_vals')"


section \<open>The grid evaluator\<close>

text \<open>
  \<^verbatim>\<open>
  with concurrent.futures.ProcessPoolExecutor() as executor:
      parrays = executor.map(mandelbrot_for_parallel, repeat(xmin), repeat(xmax),
                             repeat(ymin), repeat(ymax), repeat(threshold), yranges)
      complete_parray = []
      for parray in parrays:
          complete_parray = np.concatenate([complete_parray, parray])
      complete_parray = np.reshape(complete_parray, [resolution, resolution])
  \<close>
  This block stands in \<^verbatim>\<open>onclick\<close>, in \<^verbatim>\<open>animate\<close> and in both main programs.
  \<^verbatim>\<open>executor.map\<close> hands the results back in the order of \<open>yranges\<close>, whatever order
  the workers finish in, and an exception of a worker is raised when its result is
  taken: \<open>executor_map\<close>. \<^verbatim>\<open>np.reshape\<close> raises \<open>ValueError\<close> unless the array has
  exactly \<open>resolution * resolution\<close> elements.
\<close>

fun executor_map :: "('a \<Rightarrow> error + 'b) \<Rightarrow> 'a list \<Rightarrow> error + 'b list" where
  "executor_map f [] = Inr []"
| "executor_map f (a # as) =
     (case f a of
        Inl e \<Rightarrow> Inl e
      | Inr b \<Rightarrow> (case executor_map f as of Inl e \<Rightarrow> Inl e | Inr bs \<Rightarrow> Inr (b # bs)))"

definition np_reshape :: "real list \<Rightarrow> nat \<Rightarrow> error + real list list" where
  "np_reshape a resolution =
     (if length a = resolution * resolution
      then Inr (map (\<lambda>row. take resolution (drop (row * resolution) a)) [0..<resolution])
      else Inl ValueError)"

definition evaluate_grid ::
  "nat \<Rightarrow> real \<Rightarrow> real \<Rightarrow> real \<Rightarrow> real \<Rightarrow> int \<Rightarrow> nat list list \<Rightarrow> error + real list list"
where
  "evaluate_grid resolution xmin xmax ymin ymax threshold yranges =
     (case executor_map (mandelbrot_for_parallel resolution xmin xmax ymin ymax threshold) yranges of
        Inl e \<Rightarrow> Inl e
      | Inr parrays \<Rightarrow>
          np_reshape (fold (\<lambda>parray complete_parray. complete_parray @ parray) parrays [])
            resolution)"


section \<open>The click handler: \<^verbatim>\<open>onclick\<close>\<close>

text \<open>
  The module's global variables that \<^verbatim>\<open>onclick\<close> declares \<^verbatim>\<open>global\<close> are the fields
  of a record (prefixed \<open>g_\<close>, as the bare names are parameter names elsewhere); the
  constants \<open>resolution\<close> and \<open>add_thresh\<close> are parameters. An exception leaves the
  globals as they were assigned up to the raise, so \<open>Raised\<close> carries them too.
  \<^verbatim>\<open>
  def onclick(event):
      global zoom, xmax, xmin, ymax, ymin, threshold
      if event.button == 1:
          zoom = zoom*2
          threshold = threshold + add_thresh
      elif event.button == 3:
          zoom = int(zoom/2)
          if threshold > add_thresh:
              threshold = threshold - add_thresh
      posx = xmin + (xmax-xmin)*event.xdata/resolution
      posy = ymin + (ymax-ymin)*event.ydata/resolution
      xmin = posx - 1.5/zoom
      xmax = posx + 1.5/zoom
      ymin = posy - 1.5/zoom
      ymax = posy + 1.5/zoom
  \<close>
  The handler then evaluates the grid on the new globals (\<open>evaluate_grid\<close>) and draws it.
  \<open>zoom\<close> is a Python integer. \<^verbatim>\<open>zoom/2\<close> is the quotient rounded to a double, which
  \<^verbatim>\<open>int\<close> truncates; when it raises, no global has been assigned. \<^verbatim>\<open>1.5/zoom\<close>
  converts \<open>zoom\<close> to a double, which raises \<open>OverflowError\<close> when it is too large, and
  raises \<open>ZeroDivisionError\<close> when it is \<open>0\<close>. With \<open>resolution = 0\<close> the quotient by it is no
  real number either (an exception for a Python float, an infinity or NaN for a NumPy
  one): the model raises there too. The values of \<open>posx\<close>, \<open>posy\<close> and of the four bounds
  are the exact ones.
\<close>

record globals =
  g_zoom :: int
  g_xmin :: real
  g_xmax :: real
  g_ymin :: real
  g_ymax :: real
  g_threshold :: int

record event =
  button :: int
  xdata :: real
  ydata :: real

datatype outcome = Done globals | Raised error globals

definition click_zoom_threshold :: "int \<Rightarrow> event \<Rightarrow> globals \<Rightarrow> outcome" where
  "click_zoom_threshold add_thresh event g =
     (if button event = 1 then
        Done (g\<lparr>g_zoom := g_zoom g * 2, g_threshold := g_threshold g + add_thresh\<rparr>)
      else if button event = 3 then
        (case py_int_truediv (g_zoom g) 2 of
           Inl e \<Rightarrow> Raised e g
         | Inr half \<Rightarrow>
             if g_threshold g > add_thresh
             then Done (g\<lparr>g_zoom := py_int half, g_threshold := g_threshold g - add_thresh\<rparr>)
             else Done (g\<lparr>g_zoom := py_int half\<rparr>))
      else Done g)"

definition onclick :: "nat \<Rightarrow> int \<Rightarrow> event \<Rightarrow> globals \<Rightarrow> outcome" where
  "onclick resolution add_thresh event g =
     (case click_zoom_threshold add_thresh event g of
        Raised e g1 \<Rightarrow> Raised e g1
      | Done g1 \<Rightarrow>
          if resolution = 0 then Raised ZeroDivisionError g1
          else
            let posx = g_xmin g1 + (g_xmax g1 - g_xmin g1) * xdata event / real resolution;
                posy = g_ymin g1 + (g_ymax g1 - g_ymin g1) * ydata event / real resolution
            in case py_float (g_zoom g1) of
                 Inl e \<Rightarrow> Raised e g1
               | Inr zoom_f \<Rightarrow>
                   if zoom_f = 0 then Raised ZeroDivisionError g1
                   else Done (g1\<lparr>g_xmin := posx - 1.5 / zoom_f,
                                 g_xmax := posx + 1.5 / zoom_f,
                                 g_ymin := posy - 1.5 / zoom_f,
                                 g_ymax := posy + 1.5 / zoom_f\<rparr>))"

text \<open>The data model's invariant of a viewport.\<close>

definition viewport_ok :: "globals \<Rightarrow> bool" where
  "viewport_ok g = (g_xmin g < g_xmax g \<and> g_ymin g < g_ymax g \<and> 0 < g_threshold g)"

text \<open>The interactive program's initial globals.\<close>

definition initial_globals :: globals where
  "initial_globals =
     \<lparr>g_zoom = 1, g_xmin = -2, g_xmax = 1, g_ymin = -1.5, g_ymax = 1.5, g_threshold = 70\<rparr>"


section \<open>The animation: \<^verbatim>\<open>animate\<close> and the frame loop\<close>







text \<open>
  \<^verbatim>\<open>num_frames = int(np.log2(zoom)/delta)\<close>. NumPy's logarithm of a negative number is
  NaN and of zero is minus infinity, and a NumPy float divided by zero is infinite or NaN;
  \<^verbatim>\<open>int\<close> raises \<open>ValueError\<close> on NaN and \<open>OverflowError\<close> on an infinity.
\<close>

definition num_frames :: "real \<Rightarrow> real \<Rightarrow> error + int" where
  "num_frames zoom delta =
     (if zoom < 0 then Inl ValueError
      else if zoom = 0 then Inl OverflowError
      else if delta = 0 then (if zoom = 1 then Inl ValueError else Inl OverflowError)
      else Inr (py_int (log 2 zoom / delta)))"

text \<open>
  \<open>num_frames\<close> divides exactly. \<open>num_frames_fl\<close> is the same line with the arithmetic
  \<open>fl\<close> applied to the logarithm and to the quotient; the parameter \<open>lg2\<close> is NumPy's
  \<^verbatim>\<open>log2\<close> on positive numbers, \<open>log 2\<close> in real arithmetic (and at the powers of two).
\<close>

definition num_frames_fl ::
  "(real \<Rightarrow> error + real) \<Rightarrow> (real \<Rightarrow> real) \<Rightarrow> real \<Rightarrow> real \<Rightarrow> error + int"
where
  "num_frames_fl fl lg2 zoom delta =
     (if zoom < 0 then Inl ValueError
      else if zoom = 0 then Inl OverflowError
      else then_fl (fl (lg2 zoom)) (\<lambda>l.
        if delta = 0 then (if l = 0 then Inl ValueError else Inl OverflowError)
        else then_fl (fl (l / delta)) (\<lambda>q. Inr (py_int q))))"










section \<open>Reference values\<close>

text \<open>
  Row \<open>y\<close> of the field in row-major order: the escape counts of the points
  \<open>re[x] + i im[y]\<close> for the columns \<open>x\<close> of \<open>[0, resolution)\<close>, ascending.
\<close>

definition grid_row :: "nat \<Rightarrow> real \<Rightarrow> real \<Rightarrow> real \<Rightarrow> real \<Rightarrow> int \<Rightarrow> nat \<Rightarrow> real list" where
  "grid_row resolution xmin xmax ymin ymax threshold y =
     map (\<lambda>x. of_int (mandel (Complex (linspace xmin xmax resolution ! x)
                                      (linspace ymin ymax resolution ! y)) threshold))
       [0..<resolution]"




section \<open>The kernel computes the specified algorithm\<close>

lemma diverged_sqmag: "diverged z \<longleftrightarrow> (Re z)\<^sup>2 + (Im z)\<^sup>2 > 4"
  by (simp add: diverged_def power2_eq_square)

lemma mandel_loop_find:
  "mandel_loop c threshold (orbit c k) (int k) =
     (case find (\<lambda>n. diverged (orbit c n)) [k..<nat threshold] of
        Some n \<Rightarrow> int n
      | None \<Rightarrow> 0)"
proof (induction "nat threshold - k" arbitrary: k)
  case 0
  then have "\<not> int k < threshold" by linarith
  moreover from 0 have "[k..<nat threshold] = []" by simp
  ultimately show ?case by (simp add: mandel_loop.simps)
next
  case (Suc m)
  then have lt: "int k < threshold" and lt': "k < nat threshold" by linarith+
  have m: "m = nat threshold - Suc k" using Suc.hyps(2) by linarith
  have step: "mandel_loop c threshold (orbit c (Suc k)) (int (Suc k)) =
      (case find (\<lambda>n. diverged (orbit c n)) [Suc k..<nat threshold] of
         Some n \<Rightarrow> int n | None \<Rightarrow> 0)"
    by (rule Suc.hyps(1) [OF m])
  have unfold: "mandel_loop c threshold (orbit c k) (int k) =
      (if diverged (orbit c k) then int k
       else mandel_loop c threshold (orbit c (Suc k)) (int (Suc k)))"
    using lt by (subst mandel_loop.simps) (simp add: add.commute)
  show ?case
    unfolding unfold step by (simp add: upt_conv_Cons [OF lt'])
qed

lemma mandel_find:
  "mandel c threshold =
     (case find (\<lambda>n. diverged (orbit c n)) [0..<nat threshold] of
        Some n \<Rightarrow> int n
      | None \<Rightarrow> 0)"
  using mandel_loop_find [of c threshold 0] by (simp add: mandel_def zero_complex.code)

lemma diverged_cmod: "diverged z \<longleftrightarrow> cmod z > 2"
proof -
  have "cmod z > 2 \<longleftrightarrow> sqrt ((Re z)\<^sup>2 + (Im z)\<^sup>2) > sqrt 4"
    by (simp add: cmod_def)
  also have "\<dots> \<longleftrightarrow> (Re z)\<^sup>2 + (Im z)\<^sup>2 > 4"
    by (rule real_sqrt_less_iff)
  finally show ?thesis by (simp add: diverged_sqmag)
qed

lemma orbit_origin: "orbit 0 n = 0"
  by (induction n) simp_all

lemma not_diverged_start: "\<not> diverged (Complex 0 0)"
  by (simp add: diverged_def)

lemma find_append_case:
  "find P (xs @ ys) = (case find P xs of None \<Rightarrow> find P ys | Some x \<Rightarrow> Some x)"
  by (induction xs) simp_all

lemma find_upt_extend:
  assumes "find P [0..<a] = Some n" and "a \<le> b"
  shows "find P [0..<b] = Some n"
proof -
  have "[0..<b] = [0..<a] @ [a..<b]"
    using assms(2) by (metis le_add_diff_inverse upt_add_eq_append zero_le)
  then show ?thesis using assms(1) by (simp add: find_append_case)
qed

lemma orbit_1_1: "orbit (Complex 1 1) 1 = Complex 1 1" "orbit (Complex 1 1) 2 = Complex 1 3"
proof -
  show o1: "orbit (Complex 1 1) 1 = Complex 1 1" by (simp add: complex_eq_iff)
  show "orbit (Complex 1 1) 2 = Complex 1 3"
    using o1 by (simp add: numeral_2_eq_2 complex_eq_iff)
qed

text \<open>
  Claim C2. For every complex \<open>c\<close> and every integer threshold (positive or not),
  \<open>mandel c threshold\<close> is the result of the specified algorithm: the first \<open>n\<close> in
  \<open>[0, threshold)\<close> at which the orbit point, tested before the update \<open>z \<leftarrow> z\<^sup>2 + c\<close>,
  has \<open>z.real\<^sup>2 + z.imag\<^sup>2 > 4\<close>, and \<open>0\<close> when the loop completes. The test is the
  comparison of the squared magnitude; no square root is taken.
\<close>

theorem mandel_refines_escape_spec: "mandel c threshold = escape_spec c threshold"
  by (simp add: mandel_find escape_spec_def diverged_sqmag)

theorem mandel_refines_escape_spec_witness:
  "mandel (Complex 1 1) 5 = 2 \<and> escape_spec (Complex 1 1) 5 = 2"
proof -
  have n: "[0..<nat 5] = [0, 1, 2, 3, 4]" by (simp add: upt_rec)
  have "escape_spec (Complex 1 1) 5 = 2"
    unfolding escape_spec_def n using orbit_1_1 by simp
  then show ?thesis using mandel_refines_escape_spec [of "Complex 1 1" 5] by simp
qed


section \<open>Properties of the escape count\<close>




text \<open>
  Claim C7. For every complex \<open>c\<close> and all integer thresholds \<open>t1 < t2\<close>, if the escape
  count at \<open>t1\<close> is not \<open>0\<close> then the escape count at \<open>t2\<close> is the same: raising the cap
  never changes an escape count already found. And the origin \<open>c = 0\<close> has escape count
  \<open>0\<close> at every threshold.
\<close>

theorem mandel_monotone:
  "(t1 < t2 \<and> mandel c t1 \<noteq> 0 \<longrightarrow> mandel c t2 = mandel c t1) \<and> mandel 0 t = 0"
proof (intro conjI impI)
  assume a: "t1 < t2 \<and> mandel c t1 \<noteq> 0"
  then obtain n where n: "find (\<lambda>n. diverged (orbit c n)) [0..<nat t1] = Some n"
    by (auto simp: mandel_find split: option.splits)
  from a have "nat t1 \<le> nat t2" by linarith
  from find_upt_extend [OF n this] n show "mandel c t2 = mandel c t1"
    by (simp add: mandel_find)
next
  have "find (\<lambda>n. diverged (orbit 0 n)) [0..<nat t] = None"
    by (simp add: find_None_iff orbit_origin diverged_def)
  then show "mandel 0 t = 0" by (simp add: mandel_find)
qed

theorem mandel_monotone_witness:
  "(3::int) < 70 \<and> mandel (Complex 1 1) 3 \<noteq> 0
   \<and> mandel (Complex 1 1) 70 = mandel (Complex 1 1) 3 \<and> mandel 0 70 = 0"
proof -
  have n: "[0..<nat 3] = [0, 1, 2]" by (simp add: upt_rec)
  have "mandel (Complex 1 1) 3 = 2"
    unfolding mandel_find n using orbit_1_1 by (simp add: diverged_def)
  then show ?thesis using mandel_monotone [of 3 70 "Complex 1 1" 70] by simp
qed

text \<open>
  Claim C10. For every complex \<open>c\<close> and every integer threshold, the escape count is
  either \<open>0\<close> or a value \<open>n\<close> with \<open>1 \<le> n < threshold\<close>. The starting value \<open>z = 0\<close> is
  inside the bound, so the loop never returns from its round \<open>n = 0\<close>; the result is \<open>0\<close>
  exactly when no orbit point tested within the cap exceeds the bound, and a result
  other than \<open>0\<close> is the index of an orbit point that does.
\<close>

theorem mandel_range_sentinel:
  "(mandel c threshold = 0 \<or> (1 \<le> mandel c threshold \<and> mandel c threshold < threshold))
   \<and> \<not> diverged (Complex 0 0)
   \<and> (mandel c threshold = 0 \<longleftrightarrow> (\<forall>n < nat threshold. \<not> diverged (orbit c n)))
   \<and> (mandel c threshold \<noteq> 0 \<longrightarrow> diverged (orbit c (nat (mandel c threshold))))"
proof (cases "find (\<lambda>n. diverged (orbit c n)) [0..<nat threshold]")
  case None
  then have "mandel c threshold = 0" by (simp add: mandel_find)
  moreover from None have "\<forall>n < nat threshold. \<not> diverged (orbit c n)"
    by (simp add: find_None_iff)
  ultimately show ?thesis by (simp add: not_diverged_start)
next
  case (Some n)
  then have m: "mandel c threshold = int n" by (simp add: mandel_find)
  from Some have d: "diverged (orbit c n)" and lt: "n < nat threshold"
    by (auto simp: find_Some_iff)
  have "n \<noteq> 0" using d by (cases n) (simp_all add: diverged_def)
  with m d lt show ?thesis by (auto simp: not_diverged_start)
qed

theorem mandel_range_sentinel_witness:
  "mandel (Complex 1 1) 3 = 2 \<and> diverged (orbit (Complex 1 1) 2) \<and> mandel (Complex 1 1) 2 = 0"
proof -
  have n: "[0..<nat 3] = [0, 1, 2]" "[0..<nat 2] = [0, 1]" by (simp_all add: upt_rec)
  have a: "mandel (Complex 1 1) 3 = 2"
    unfolding mandel_find n using orbit_1_1 by (simp add: diverged_def)
  have b: "mandel (Complex 1 1) 2 = 0"
    unfolding mandel_find n using orbit_1_1 by (simp add: diverged_def)
  show ?thesis using a b mandel_range_sentinel [of "Complex 1 1" 3] by simp
qed

section \<open>Parallel and sequential evaluation of the grid\<close>

lemma length_linspace: "length (linspace start stop num) = num"
  by (simp add: linspace_def)

lemma length_grid_row: "length (grid_row resolution xmin xmax ymin ymax threshold y) = resolution"
  by (simp add: grid_row_def)

lemma x_loop_fill:
  assumes "\<forall>x \<in> set xs. x < length re" and "xs = [] \<or> y < length im"
    and "k + length xs \<le> length point_vals"
  shows "x_loop re im threshold y xs (point_vals, k) =
           Inr (take k point_vals
                  @ map (\<lambda>x. of_int (mandel (Complex (re ! x) (im ! y)) threshold)) xs
                  @ drop (k + length xs) point_vals,
                k + length xs)"
  using assms
proof (induction xs arbitrary: point_vals k)
  case Nil
  then show ?case by simp
next
  case (Cons x xs)
  let ?v = "real_of_int (mandel (Complex (re ! x) (im ! y)) threshold)"
  from Cons.prems have k: "k < length point_vals" and x: "x < length re" and y: "y < length im"
    by auto
  have ih: "x_loop re im threshold y xs (point_vals[k := ?v], Suc k) =
      Inr (take (Suc k) (point_vals[k := ?v])
             @ map (\<lambda>x. of_int (mandel (Complex (re ! x) (im ! y)) threshold)) xs
             @ drop (Suc k + length xs) (point_vals[k := ?v]),
           Suc k + length xs)"
    using Cons.prems y by (intro Cons.IH) auto
  have t: "take (Suc k) (point_vals[k := ?v]) = take k point_vals @ [?v]"
    using k by (simp add: take_Suc_conv_app_nth)
  have d: "drop (Suc k + length xs) (point_vals[k := ?v]) = drop (Suc k + length xs) point_vals"
    by simp
  show ?case using k x y ih by (simp add: t d)
qed

lemma y_loop_fill:
  assumes "\<forall>y \<in> set ys. y < length im" and "length re = resolution"
    and "k + resolution * length ys \<le> length point_vals"
  shows "y_loop re im threshold resolution ys (point_vals, k) =
           Inr (take k point_vals
                  @ concat (map (\<lambda>y. map (\<lambda>x. of_int (mandel (Complex (re ! x) (im ! y)) threshold))
                                        [0..<resolution]) ys)
                  @ drop (k + resolution * length ys) point_vals,
                k + resolution * length ys)"
  using assms
proof (induction ys arbitrary: point_vals k)
  case Nil
  then show ?case by simp
next
  case (Cons y ys)
  let ?row = "map (\<lambda>x. real_of_int (mandel (Complex (re ! x) (im ! y)) threshold)) [0..<resolution]"
  let ?pv = "take k point_vals @ ?row @ drop (k + resolution) point_vals"
  from Cons.prems have le: "k + resolution \<le> length point_vals" by simp
  have x: "x_loop re im threshold y [0..<resolution] (point_vals, k) = Inr (?pv, k + resolution)"
    using x_loop_fill [of "[0..<resolution]" re y im k point_vals threshold] Cons.prems le
    by simp
  have len: "length ?pv = length point_vals" using le by simp
  have ih: "y_loop re im threshold resolution ys (?pv, k + resolution) =
      Inr (take (k + resolution) ?pv
             @ concat (map (\<lambda>y. map (\<lambda>x. of_int (mandel (Complex (re ! x) (im ! y)) threshold))
                                   [0..<resolution]) ys)
             @ drop (k + resolution + resolution * length ys) ?pv,
           k + resolution + resolution * length ys)"
    using Cons.prems len by (intro Cons.IH) (auto simp: algebra_simps)
  have t: "take (k + resolution) ?pv = take k point_vals @ ?row"
    using le by simp
  have d: "drop (k + resolution + resolution * length ys) ?pv
             = drop (k + resolution + resolution * length ys) point_vals"
    using le by (simp add: algebra_simps)
  show ?case
    by (simp add: x ih t d del: take_append drop_append append_assoc) (simp add: algebra_simps)
qed

lemma mandelbrot_for_parallel_rows:
  assumes "\<forall>y \<in> set yrange. y < resolution"
  shows "mandelbrot_for_parallel resolution xmin xmax ymin ymax threshold yrange =
           Inr (concat (map (grid_row resolution xmin xmax ymin ymax threshold) yrange))"
proof -
  have "y_loop (linspace xmin xmax resolution) (linspace ymin ymax resolution) threshold
          resolution yrange (replicate (resolution * length yrange) 0, 0) =
        Inr (concat (map (grid_row resolution xmin xmax ymin ymax threshold) yrange),
             resolution * length yrange)"
    using y_loop_fill [of yrange "linspace ymin ymax resolution" "linspace xmin xmax resolution"
        resolution 0 "replicate (resolution * length yrange) 0" threshold] assms
    by (simp add: length_linspace grid_row_def [abs_def])
  then show ?thesis by (simp add: mandelbrot_for_parallel_def Let_def)
qed

lemma executor_map_all:
  assumes "\<forall>a \<in> set as. f a = Inr (g a)"
  shows "executor_map f as = Inr (map g as)"
  using assms by (induction as) simp_all

lemma fold_concatenate: "fold (\<lambda>parray complete_parray. complete_parray @ parray) ps acc = acc @ concat ps"
  by (induction ps arbitrary: acc) simp_all

lemma take_drop_concat_row:
  assumes "\<forall>r \<in> set rows. length r = n" and "i < length rows"
  shows "take n (drop (i * n) (concat rows)) = rows ! i"
  using assms
proof (induction rows arbitrary: i)
  case Nil
  then show ?case by simp
next
  case (Cons r rows)
  show ?case
  proof (cases i)
    case 0
    with Cons.prems show ?thesis by simp
  next
    case (Suc j)
    with Cons.prems have "take n (drop (j * n) (concat rows)) = rows ! j"
      by (intro Cons.IH) auto
    with Suc Cons.prems show ?thesis by (simp add: add.commute)
  qed
qed

lemma length_concat_rows:
  assumes "\<forall>r \<in> set rows. length r = n"
  shows "length (concat rows) = length rows * n"
  using assms by (induction rows) simp_all

lemma np_reshape_rows:
  assumes "\<forall>r \<in> set rows. length r = n" and "length rows = n"
  shows "np_reshape (concat rows) n = Inr rows"
proof -
  have "map (\<lambda>row. take n (drop (row * n) (concat rows))) [0..<n] = map (\<lambda>i. rows ! i) [0..<n]"
    using assms by (intro map_cong refl take_drop_concat_row) auto
  also have "\<dots> = rows" unfolding assms(2) [symmetric] by (rule map_nth)
  finally have rows: "map (\<lambda>row. take n (drop (row * n) (concat rows))) [0..<n] = rows" .
  have "length (concat rows) = n * n"
    using length_concat_rows [OF assms(1)] assms(2) by simp
  with rows show ?thesis by (simp add: np_reshape_def)
qed

lemma concat_bands:
  "concat (map (\<lambda>yrange. concat (map f yrange)) yranges) = concat (map f (concat yranges))"
  by (induction yranges) simp_all

lemma evaluate_grid_rows:
  assumes "concat yranges = [0..<resolution]"
  shows "executor_map (mandelbrot_for_parallel resolution xmin xmax ymin ymax threshold) yranges
           = Inr (map (\<lambda>yrange. concat (map (grid_row resolution xmin xmax ymin ymax threshold) yrange)) yranges)"
    and "evaluate_grid resolution xmin xmax ymin ymax threshold yranges
           = Inr (map (grid_row resolution xmin xmax ymin ymax threshold) [0..<resolution])"
    and "length (concat (map (\<lambda>yrange. concat (map (grid_row resolution xmin xmax ymin ymax threshold) yrange)) yranges)) = resolution * resolution"
proof -
  let ?row = "grid_row resolution xmin xmax ymin ymax threshold"
  have in_range: "\<forall>yrange \<in> set yranges. \<forall>y \<in> set yrange. y < resolution"
  proof (intro ballI)
    fix yrange y assume "yrange \<in> set yranges" "y \<in> set yrange"
    then have "y \<in> set (concat yranges)" by auto
    then show "y < resolution" by (simp add: assms)
  qed
  show ex: "executor_map (mandelbrot_for_parallel resolution xmin xmax ymin ymax threshold) yranges
           = Inr (map (\<lambda>yrange. concat (map ?row yrange)) yranges)"
    using in_range by (intro executor_map_all) (simp add: mandelbrot_for_parallel_rows)
  have c: "concat (map (\<lambda>yrange. concat (map ?row yrange)) yranges) = concat (map ?row [0..<resolution])"
    by (simp add: concat_bands assms)
  show "evaluate_grid resolution xmin xmax ymin ymax threshold yranges = Inr (map ?row [0..<resolution])"
    unfolding evaluate_grid_def ex
    by (simp add: fold_concatenate c np_reshape_rows length_grid_row)
  show "length (concat (map (\<lambda>yrange. concat (map ?row yrange)) yranges)) = resolution * resolution"
    unfolding c by (simp add: length_concat_rows [where n = resolution] length_grid_row)
qed

text \<open>
  Claim C1. For every viewport and threshold, and every list of bands whose
  concatenation is \<open>[0, resolution)\<close> (a partition of the rows into ascending contiguous
  bands, taken in order), evaluating the bands with \<open>mandelbrot_for_parallel\<close>,
  concatenating the outputs in order and reshaping gives the same field as the single
  band of all rows: row \<open>y\<close> and column \<open>x\<close> hold the escape count of \<open>re[x] + i im[y]\<close>.
  No band fails, the reshape succeeds, and the number of escape counts collected is
  \<open>resolution\<^sup>2\<close>.
\<close>

theorem evaluate_grid_bands:
  assumes "concat yranges = [0..<resolution]"
  shows "evaluate_grid resolution xmin xmax ymin ymax threshold yranges
           = evaluate_grid resolution xmin xmax ymin ymax threshold [[0..<resolution]]
       \<and> evaluate_grid resolution xmin xmax ymin ymax threshold yranges
           = Inr (map (grid_row resolution xmin xmax ymin ymax threshold) [0..<resolution])
       \<and> (\<exists>parrays.
            executor_map (mandelbrot_for_parallel resolution xmin xmax ymin ymax threshold) yranges
              = Inr parrays
            \<and> length (concat parrays) = resolution * resolution)"
proof -
  have one: "concat [[0..<resolution]] = [0..<resolution]" by simp
  show ?thesis
    using evaluate_grid_rows [OF assms, of xmin xmax ymin ymax threshold]
      evaluate_grid_rows(2) [OF one, of xmin xmax ymin ymax threshold]
    by simp
qed


theorem evaluate_grid_bands_witness:
  "concat [[0], [1]] = [0..<2]
   \<and> evaluate_grid 2 (- 2) 1 (- (3/2)) (3/2) 3 [[0], [1]] = Inr [[1, 2], [1, 2]]
   \<and> evaluate_grid 2 (- 2) 1 (- (3/2)) (3/2) 3 [[0..<2]] = Inr [[1, 2], [1, 2]]"
proof -
  have u2: "[0..<2] = [0, 1]" by (simp add: upt_rec)
  have u3: "[0..<nat 3] = [0, 1, 2]" by (simp add: upt_rec)
  have h: "concat [[0], [1]] = [0..<2]" by (simp add: u2)
  have m: "mandel (Complex (- 2) (- (3/2))) 3 = 1" "mandel (Complex 1 (- (3/2))) 3 = 2"
    "mandel (Complex (- 2) (3/2)) 3 = 1" "mandel (Complex 1 (3/2)) 3 = 2"
    unfolding mandel_find u3 by (simp_all add: diverged_def numeral_2_eq_2)
  have rows: "map (grid_row 2 (- 2) 1 (- (3/2)) (3/2) 3) [0..<2] = [[1, 2], [1, 2]]"
    by (simp add: u2 grid_row_def linspace_def m)
  note t = evaluate_grid_bands [OF h, of "- 2" 1 "- (3/2)" "3/2" 3]
  have a: "evaluate_grid 2 (- 2) 1 (- (3/2)) (3/2) 3 [[0], [1]] = Inr [[1, 2], [1, 2]]"
    using conjunct1 [OF conjunct2 [OF t]] unfolding rows .
  have b: "evaluate_grid 2 (- 2) 1 (- (3/2)) (3/2) 3 [[0..<2]] = Inr [[1, 2], [1, 2]]"
    using conjunct1 [OF t] unfolding a by (rule sym)
  from h a b show ?thesis by (intro conjI)
qed

section \<open>Rounding to a double\<close>

lemma round_half_even_of_int: "round_half_even (of_int k) = k"
  by (simp add: round_half_even_def)




lemma double_ulp_eq:
  assumes "2 powr of_int e \<le> \<bar>x\<bar>" and "\<bar>x\<bar> < 2 powr (of_int e + 1)" and "- 1022 \<le> e"
  shows "double_ulp x = 2 powr (of_int e - 52)"
proof -
  have "0 < (2::real) powr of_int e" by simp
  with assms(1) have "0 < \<bar>x\<bar>" by linarith
  then have "\<lfloor>log 2 \<bar>x\<bar>\<rfloor> = e"
    using assms(1,2) by (simp add: floor_log_eq_powr_iff)
  then show ?thesis using assms(3) by (simp add: double_ulp_def max_def)
qed

lemma round_double_eval:
  assumes "2 powr of_int e \<le> \<bar>x\<bar>" and "\<bar>x\<bar> < 2 powr (of_int e + 1)" and "- 1022 \<le> e"
  shows "round_double x =
           of_int (round_half_even (x / 2 powr (of_int e - 52))) * 2 powr (of_int e - 52)"
proof -
  have "0 < (2::real) powr of_int e" by simp
  with assms(1) have "x \<noteq> 0" by linarith
  then show ?thesis by (simp add: round_double_def double_ulp_eq [OF assms])
qed

lemma round_double_exact:
  assumes "2 powr of_int e \<le> \<bar>x\<bar>" and "\<bar>x\<bar> < 2 powr (of_int e + 1)" and "- 1022 \<le> e"
    and "x / 2 powr (of_int e - 52) = of_int k"
  shows "round_double x = x"
proof -
  have "round_double x = of_int k * 2 powr (of_int e - 52)"
    by (simp add: round_double_eval [OF assms(1-3)] assms(4) round_half_even_of_int)
  also have "\<dots> = x" using assms(4) by (simp add: field_simps)
  finally show ?thesis .
qed

lemma round_double_powr:
  assumes "- 1022 \<le> e"
  shows "round_double (2 powr of_int e) = 2 powr of_int e"
    and "round_double (- (2 powr of_int e)) = - (2 powr of_int e)"
proof -
  have q: "2 powr of_int e / 2 powr (of_int e - 52) = (of_int (2 ^ 52) :: real)"
    by (simp add: powr_diff)
  have lt: "(2::real) powr of_int e < 2 powr (of_int e + 1)" by simp
  show "round_double (2 powr of_int e) = 2 powr of_int e"
    using assms lt q by (intro round_double_exact [where e = e and k = "2 ^ 52"]) simp_all
  have q': "- (2 powr of_int e) / 2 powr (of_int e - 52) = (of_int (- (2 ^ 52)) :: real)"
    using q by simp
  show "round_double (- (2 powr of_int e)) = - (2 powr of_int e)"
    using assms lt q' by (intro round_double_exact [where e = e and k = "- (2 ^ 52)"]) simp_all
qed

lemma round_double_power: "round_double (2 ^ n) = 2 ^ n"
  using round_double_powr(1) [of "int n"] by (simp add: powr_realpow)

lemma round_double_half: "round_double (1/2) = 1/2"
  using round_double_powr(1) [of "- 1"] by (simp add: powr_minus_divide)

lemma round_double_one: "round_double 1 = 1" "round_double (- 1) = - 1"
  using round_double_powr [of 0] by simp_all

lemma round_double_twice:
  assumes "1 \<le> \<bar>x\<bar>"
  shows "round_double (2 * x) = 2 * round_double x"
proof -
  define e where "e = \<lfloor>log 2 \<bar>x\<bar>\<rfloor>"
  have pos: "0 < \<bar>x\<bar>" using assms by simp
  have "0 \<le> log 2 \<bar>x\<bar>" using assms by simp
  then have e0: "0 \<le> e" by (simp add: e_def)
  have b: "2 powr of_int e \<le> \<bar>x\<bar>" "\<bar>x\<bar> < 2 powr (of_int e + 1)"
    using floor_log_eq_powr_iff [of "\<bar>x\<bar>" 2 e] pos by (simp_all add: e_def)
  have b2: "2 powr of_int (e + 1) \<le> \<bar>2 * x\<bar>" "\<bar>2 * x\<bar> < 2 powr (of_int (e + 1) + 1)"
    using b by (simp_all add: powr_add abs_mult)
  have u: "(2::real) powr (of_int (e + 1) - 52) = 2 * 2 powr (of_int e - 52)"
    by (simp add: powr_diff powr_add)
  have "round_double (2 * x) =
      of_int (round_half_even (2 * x / 2 powr (of_int (e + 1) - 52))) * 2 powr (of_int (e + 1) - 52)"
    using e0 by (intro round_double_eval b2) simp
  also have "\<dots> = 2 * (of_int (round_half_even (x / 2 powr (of_int e - 52))) * 2 powr (of_int e - 52))"
    unfolding u by simp
  also have "\<dots> = 2 * round_double x"
    using e0 by (subst round_double_eval [OF b]) simp_all
  finally show ?thesis .
qed

lemma round_double_small_int:
  assumes "\<bar>z\<bar> < 2 ^ 53"
  shows "round_double (of_int z) = of_int z"
proof (cases "z = 0")
  case True
  then show ?thesis by (simp add: round_double_def)
next
  case False
  define e where "e = \<lfloor>log 2 \<bar>real_of_int z\<bar>\<rfloor>"
  have pos: "0 < \<bar>real_of_int z\<bar>" using False by simp
  have one: "1 \<le> \<bar>real_of_int z\<bar>" using False by (simp flip: of_int_abs)
  then have "0 \<le> log 2 \<bar>real_of_int z\<bar>" by simp
  then have e0: "0 \<le> e" by (simp add: e_def)
  have b: "2 powr of_int e \<le> \<bar>real_of_int z\<bar>" "\<bar>real_of_int z\<bar> < 2 powr (of_int e + 1)"
    using floor_log_eq_powr_iff [of "\<bar>real_of_int z\<bar>" 2 e] pos by (simp_all add: e_def)
  have "\<bar>real_of_int z\<bar> < 2 ^ 53" using assms by (simp flip: of_int_abs)
  then have "\<bar>real_of_int z\<bar> < 2 powr 53" by simp
  with b(1) have "(2::real) powr of_int e < 2 powr 53" by (rule le_less_trans)
  then have "real_of_int e < 53" by (subst (asm) powr_less_cancel_iff) simp_all
  then have e52: "e \<le> 52" by linarith
  have p: "(2::real) powr (of_int e - 52) = 1 / 2 ^ nat (52 - e)"
  proof -
    have "(2::real) powr (of_int e - 52) = 2 powr (- real_of_int (52 - e))" by simp
    also have "\<dots> = 1 / 2 powr real_of_int (52 - e)" by (simp only: powr_minus_divide)
    also have "\<dots> = 1 / 2 ^ nat (52 - e)" using e52 by (subst powr_real_of_int) simp_all
    finally show ?thesis .
  qed
  have q: "real_of_int z / 2 powr (of_int e - 52) = of_int (z * 2 ^ nat (52 - e))"
    unfolding p by simp
  have "- 1022 \<le> e" using e0 by simp
  from b this q show ?thesis by (rule round_double_exact)
qed

lemma fl_double_exact:
  assumes "round_double x = x" and "\<bar>x\<bar> < 2 ^ 1024"
  shows "fl_double x = Inr x"
  using assms by (simp add: fl_double_def)

lemma fl_double_small_int:
  assumes "\<bar>z\<bar> < 2 ^ 53"
  shows "fl_double (of_int z) = Inr (of_int z)"
proof -
  have "\<bar>real_of_int z\<bar> < 2 ^ 53" using assms by (simp flip: of_int_abs)
  moreover have "(2::real) ^ 53 \<le> 2 ^ 1024" by (rule power_increasing) simp_all
  ultimately have "\<bar>real_of_int z\<bar> < 2 ^ 1024" by linarith
  then show ?thesis by (intro fl_double_exact round_double_small_int assms)
qed


lemma round_half_even_up:
  assumes "1/2 < m - of_int f" and "m < of_int f + 1"
  shows "round_half_even m = f + 1"
proof -
  have "\<lfloor>m\<rfloor> = f" using assms by (intro floor_unique) simp_all
  then show ?thesis using assms(1) by (simp add: round_half_even_def)
qed

lemma round_double_scaled:
  assumes "n \<le> 1074" and "2 ^ 52 \<le> \<bar>x\<bar> * 2 ^ n" and "\<bar>x\<bar> * 2 ^ n < 2 ^ 53"
  shows "round_double x = of_int (round_half_even (x * 2 ^ n)) / 2 ^ n"
proof -
  define e where "e = 52 - int n"
  have u: "(2::real) powr (of_int e - 52) = 1 / 2 ^ n"
    by (simp add: e_def powr_minus_divide powr_realpow)
  have p: "(2::real) powr of_int e = 2 ^ 52 / 2 ^ n"
    by (simp add: e_def powr_diff powr_realpow)
  have p1: "(2::real) powr (of_int e + 1) = 2 ^ 53 / 2 ^ n"
    by (simp add: powr_add p)
  have lo: "2 powr of_int e \<le> \<bar>x\<bar>" unfolding p using assms(2) by (simp add: field_simps)
  have hi: "\<bar>x\<bar> < 2 powr (of_int e + 1)" unfolding p1 using assms(3) by (simp add: field_simps)
  have "- 1022 \<le> e" using assms(1) by (simp add: e_def)
  from round_double_eval [OF lo hi this] show ?thesis unfolding u by simp
qed




lemma rd_frames_shipped: "round_double (16 / (3602879701896397 / 2 ^ 57)) = 640"
proof -
  have "round_half_even (16 / (3602879701896397 / 2 ^ 57) * 2 ^ 43) = 5629499534213119 + 1"
    by (rule round_half_even_up) simp_all
  then show ?thesis by (subst round_double_scaled [where n = 43]) simp_all
qed


section \<open>The click transitions\<close>

lemma py_int_of_int: "py_int (of_int z) = z"
  by (simp add: py_int_def)

lemma py_float_exact:
  assumes "round_double (of_int z) = of_int z" and "\<bar>z\<bar> < 2 ^ 1024"
  shows "py_float z = Inr (of_int z)"
proof -
  have "\<bar>real_of_int z\<bar> < 2 ^ 1024" using assms(2) by (simp flip: of_int_abs)
  with assms(1) show ?thesis unfolding py_float_def by (rule fl_double_exact)
qed

lemma round_double_twice_int:
  assumes "round_double (of_int z) = of_int z" and "1 \<le> z"
  shows "round_double (of_int (z * 2)) = of_int (z * 2)"
proof -
  have "1 \<le> \<bar>real_of_int z\<bar>" using assms(2) by simp
  from round_double_twice [OF this] assms(1) show ?thesis by (simp add: mult.commute)
qed

lemma onclick_left_ok:
  assumes "1 \<le> g_zoom g" and "g_zoom g < 2 ^ 1023"
    and "round_double (of_int (g_zoom g)) = of_int (g_zoom g)" and "0 < resolution"
  shows "\<exists>g1. onclick resolution add_thresh \<lparr>button = 1, xdata = px, ydata = py\<rparr> g = Done g1
              \<and> g_zoom g1 = g_zoom g * 2 \<and> g_threshold g1 = g_threshold g + add_thresh"
proof -
  have r: "round_double (of_int (g_zoom g * 2)) = of_int (g_zoom g * 2)"
    using assms(3,1) by (rule round_double_twice_int)
  have "\<bar>g_zoom g * 2\<bar> < 2 ^ 1024" using assms(1,2) by simp
  with r have f: "py_float (g_zoom g * 2) = Inr (of_int (g_zoom g * 2))" by (rule py_float_exact)
  have nz: "real_of_int (g_zoom g * 2) \<noteq> 0" using assms(1) by simp
  show ?thesis
    using assms(4) nz by (simp add: onclick_def click_zoom_threshold_def Let_def f)
qed

lemma onclick_right_ok:
  assumes "g_zoom g = z * 2" and "1 \<le> z" and "z < 2 ^ 1023"
    and "round_double (of_int z) = of_int z" and "0 < resolution"
  shows "\<exists>g2. onclick resolution add_thresh \<lparr>button = 3, xdata = px, ydata = py\<rparr> g = Done g2
              \<and> g_zoom g2 = z
              \<and> g_threshold g2 = (if g_threshold g > add_thresh then g_threshold g - add_thresh
                                   else g_threshold g)"
proof -
  have small: "\<bar>z\<bar> < 2 ^ 1024"
  proof -
    have "(2::int) ^ 1023 \<le> 2 ^ 1024" by (rule power_increasing) simp_all
    with assms(2,3) show ?thesis by simp
  qed
  have f: "py_float z = Inr (of_int z)" using assms(4) small by (rule py_float_exact)
  have "fl_double (real_of_int z) = Inr (real_of_int z)"
    using f by (simp add: py_float_def)
  then have d: "py_int_truediv (g_zoom g) 2 = Inr (of_int z)"
    by (simp add: py_int_truediv_def assms(1))
  have nz: "real_of_int z \<noteq> 0" using assms(2) by simp
  show ?thesis
    using assms(5) nz
    by (simp add: onclick_def click_zoom_threshold_def Let_def d f py_int_of_int)
qed

lemma py_int_truediv_one_two: "py_int_truediv 1 2 = Inr (1/2)"
proof -
  have "\<bar>1/2 :: real\<bar> < 2 ^ 1024"
  proof -
    have "(1::real) \<le> 2 ^ 1024" by (rule one_le_power) simp
    then show ?thesis by simp
  qed
  with round_double_half have "fl_double (1/2) = Inr (1/2)" by (rule fl_double_exact)
  then show ?thesis by (simp add: py_int_truediv_def)
qed

lemma py_float_zero: "py_float 0 = Inr 0"
  by (simp add: py_float_def fl_double_def round_double_def)

text \<open>
  Claim C5 says that a right click makes the zoom level \<open>max(1, zoomLevel/2)\<close>, lowers
  the threshold by \<open>add_thresh\<close> only while it stays positive, and centres the new bounds
  on the clicked point with half-extent \<open>1.5\<close> over the new zoom level. From a zoom level
  \<open>2 z\<close> with \<open>z\<close> a double the handler halves it and guards the threshold so
  (\<open>onclick_right_ok\<close>). At zoom level \<open>1\<close>, the level the program starts with, it does
  not: \<^verbatim>\<open>int(zoom/2)\<close> is \<open>0\<close>, no bound is computed, and \<^verbatim>\<open>1.5/zoom\<close> raises
  \<open>ZeroDivisionError\<close> with the zoom level left at \<open>0\<close>.
\<close>

theorem onclick_right_at_zoom_one:
  "onclick 2800 50 \<lparr>button = 3, xdata = 1400, ydata = 1400\<rparr> initial_globals =
     Raised ZeroDivisionError
       \<lparr>g_zoom = 0, g_xmin = -2, g_xmax = 1, g_ymin = -1.5, g_ymax = 1.5, g_threshold = 20\<rparr>"
  by (simp add: onclick_def click_zoom_threshold_def initial_globals_def py_int_def Let_def
      py_int_truediv_one_two py_float_zero)

text \<open>
  Claim C8 says that every transition from a state with \<open>xmin < xmax\<close>, \<open>ymin < ymax\<close> and
  \<open>threshold > 0\<close> completes without error and keeps these three. The initial globals
  satisfy the invariant, and a right click on them raises \<open>ZeroDivisionError\<close>; the zoom
  level it leaves is \<open>0\<close>, so that the next left click raises as well.
\<close>

theorem onclick_breaks_viewport_transitions:
  "viewport_ok initial_globals
   \<and> onclick 2800 50 \<lparr>button = 3, xdata = 0, ydata = 0\<rparr> initial_globals =
       Raised ZeroDivisionError (initial_globals\<lparr>g_zoom := 0, g_threshold := 20\<rparr>)
   \<and> onclick 2800 50 \<lparr>button = 1, xdata = 0, ydata = 0\<rparr>
         (initial_globals\<lparr>g_zoom := 0, g_threshold := 20\<rparr>) =
       Raised ZeroDivisionError (initial_globals\<lparr>g_zoom := 0, g_threshold := 70\<rparr>)"
  by (simp add: onclick_def click_zoom_threshold_def initial_globals_def py_int_def Let_def
      viewport_ok_def py_int_truediv_one_two py_float_zero)

text \<open>
  Claim C9, as stated, fails: it takes every zoom level \<open>\<ge> 1\<close>, and \<open>zoom\<close> is an
  unbounded Python integer that the handler passes through doubles. From the zoom level
  \<open>2\<^bsup>1023\<^esup>\<close>, with the threshold \<open>70\<close>, the left click doubles it to \<open>2\<^bsup>1024\<^esup>\<close>, which no
  double holds: \<^verbatim>\<open>1.5/zoom\<close> raises \<open>OverflowError\<close> and there is no state to click right on.
\<close>

theorem left_click_overflows:
  "0 < g_threshold (initial_globals\<lparr>g_zoom := 2 ^ 1023\<rparr>)
   \<and> 1 \<le> g_zoom (initial_globals\<lparr>g_zoom := 2 ^ 1023\<rparr>)
   \<and> onclick 2800 50 \<lparr>button = 1, xdata = 1400, ydata = 1400\<rparr>
         (initial_globals\<lparr>g_zoom := 2 ^ 1023\<rparr>) =
       Raised OverflowError (initial_globals\<lparr>g_zoom := 2 ^ 1024, g_threshold := 120\<rparr>)"
proof -
  have z: "(2::int) ^ 1023 * 2 = 2 ^ 1024" by simp
  have "round_double (2 ^ 1024) = 2 ^ 1024" by (rule round_double_power)
  then have f: "py_float (2 ^ 1024) = Inl OverflowError"
    by (simp add: py_float_def fl_double_def)
  show ?thesis
    by (simp add: onclick_def click_zoom_threshold_def initial_globals_def Let_def z f
        del: power_numeral)
qed

text \<open>
  Claim C9, amended. For every state with \<open>threshold > 0\<close> and a zoom level \<open>\<ge> 1\<close> and
  below \<open>2\<^bsup>1023\<^esup>\<close> that a double holds exactly (every level up to \<open>2\<^bsup>53\<^esup>\<close> and every power of
  two, \<open>round_double_small_int\<close> and \<open>round_double_power\<close>: the levels that clicks reach
  from \<open>1\<close>), a left click and then a right click at the same pixel both complete, and
  zoom level and threshold are back at their values before the two clicks. (With
  \<open>threshold > 0\<close> the guard of the right click always lets the decrease through.)
\<close>

theorem left_then_right_click:
  assumes "0 < g_threshold g" and "1 \<le> g_zoom g" and "g_zoom g < 2 ^ 1023"
    and "round_double (of_int (g_zoom g)) = of_int (g_zoom g)" and "0 < resolution"
  shows "\<exists>g1 g2.
           onclick resolution add_thresh \<lparr>button = 1, xdata = px, ydata = py\<rparr> g = Done g1
         \<and> onclick resolution add_thresh \<lparr>button = 3, xdata = px, ydata = py\<rparr> g1 = Done g2
         \<and> g_zoom g2 = g_zoom g \<and> g_threshold g2 = g_threshold g"
proof -
  obtain g1 where l: "onclick resolution add_thresh \<lparr>button = 1, xdata = px, ydata = py\<rparr> g = Done g1"
    and z1: "g_zoom g1 = g_zoom g * 2" and t1: "g_threshold g1 = g_threshold g + add_thresh"
    using onclick_left_ok [OF assms(2,3,4,5)] by blast
  obtain g2 where r: "onclick resolution add_thresh \<lparr>button = 3, xdata = px, ydata = py\<rparr> g1 = Done g2"
    and z2: "g_zoom g2 = g_zoom g"
    and t2: "g_threshold g2 = (if g_threshold g1 > add_thresh then g_threshold g1 - add_thresh
                              else g_threshold g1)"
    using onclick_right_ok [OF z1 assms(2,3,4,5)] by blast
  from t1 t2 assms(1) have "g_threshold g2 = g_threshold g" by simp
  with l r z2 show ?thesis by blast
qed

theorem left_then_right_click_witness:
  "0 < g_threshold initial_globals \<and> 1 \<le> g_zoom initial_globals
   \<and> g_zoom initial_globals < 2 ^ 1023
   \<and> round_double (of_int (g_zoom initial_globals)) = of_int (g_zoom initial_globals)
   \<and> (0::nat) < 2800
   \<and> (\<exists>g1 g2.
           onclick 2800 50 \<lparr>button = 1, xdata = 700, ydata = 2100\<rparr> initial_globals = Done g1
         \<and> onclick 2800 50 \<lparr>button = 3, xdata = 700, ydata = 2100\<rparr> g1 = Done g2
         \<and> g_zoom g2 = 1 \<and> g_threshold g2 = 70)"
proof -
  have z: "g_zoom initial_globals = 1" "g_threshold initial_globals = 70"
    by (simp_all add: initial_globals_def)
  have a: "0 < g_threshold initial_globals" and b: "1 \<le> g_zoom initial_globals"
    by (simp_all add: z)
  have c: "g_zoom initial_globals < 2 ^ 1023"
  proof -
    have "(1::int) < 2 ^ 1023" by (rule one_less_power) simp_all
    then show ?thesis by (simp only: z)
  qed
  have d: "round_double (of_int (g_zoom initial_globals)) = of_int (g_zoom initial_globals)"
    by (simp add: z round_double_one)
  have e: "(0::nat) < 2800" by simp
  note t = left_then_right_click [OF a b c d e, of 50 700 2100]
  from t have t': "\<exists>g1 g2.
           onclick 2800 50 \<lparr>button = 1, xdata = 700, ydata = 2100\<rparr> initial_globals = Done g1
         \<and> onclick 2800 50 \<lparr>button = 3, xdata = 700, ydata = 2100\<rparr> g1 = Done g2
         \<and> g_zoom g2 = 1 \<and> g_threshold g2 = 70"
    by (simp only: z)
  from a b c d e t' show ?thesis by (intro conjI)
qed


section \<open>The animation step\<close>

lemma then_fl_Inr: "then_fl (Inr x) f = f x"
  by (simp add: then_fl_def)


lemma then_fl_exact: "then_fl (exact x) f = f x"
  by (simp add: then_fl_def exact_def)











lemma log_2_zero_iff:
  assumes "0 < x"
  shows "log 2 x = 0 \<longleftrightarrow> x = 1"
proof
  assume "log 2 x = 0"
  then have "2 powr log 2 x = 2 powr 0" by simp
  then show "x = 1" using assms by simp
qed simp

lemma num_frames_exact: "num_frames zoom delta = num_frames_fl exact (log 2) zoom delta"
  by (cases "0 < zoom") (auto simp: num_frames_def num_frames_fl_def then_fl_exact log_2_zero_iff)


lemma log_2_65536: "log 2 65536 = 16"
proof -
  have "log 2 65536 = log 2 (2 ^ 16)" by simp
  also have "\<dots> = 16" by (subst log_pow_cancel) simp_all
  finally show ?thesis .
qed

lemma fl_double_int: "fl_double 2 = Inr 2" "fl_double 1 = Inr 1" "fl_double 50 = Inr 50"
  "fl_double 16 = Inr 16" "fl_double 32 = Inr 32" "fl_double 58 = Inr 58" "fl_double (- 1) = Inr (- 1)"
  using fl_double_small_int [of 2] fl_double_small_int [of 1] fl_double_small_int [of 50]
    fl_double_small_int [of 16] fl_double_small_int [of 32] fl_double_small_int [of 58]
    fl_double_small_int [of "- 1"]
  by simp_all

lemma fl_double_value:
  assumes "round_double x = r" and "\<bar>r\<bar> < 2 ^ 1024"
  shows "fl_double x = Inr r"
  using assms by (simp add: fl_double_def)

text \<open>
  The animation program as it is shipped, zoom \<open>2\<^bsup>16\<^esup>\<close> and \<open>delta\<close> the double of \<open>0.025\<close>,
  renders \<open>640\<close> frames; the exact quotient is just below \<open>640\<close>.
\<close>

lemma num_frames_shipped:
  "num_frames_fl fl_double (log 2) 65536 (3602879701896397 / 2 ^ 57) = Inr 640"
  "num_frames_fl exact (log 2) 65536 (3602879701896397 / 2 ^ 57) = Inr 639"
proof -
  have "(640::real) < 2 ^ 1024"
  proof -
    have "(2::real) ^ 10 \<le> 2 ^ 1024" by (rule power_increasing) simp_all
    then show ?thesis by simp
  qed
  then have "fl_double (16 / (3602879701896397 / 2 ^ 57)) = Inr 640"
    by (intro fl_double_value rd_frames_shipped) simp
  then show "num_frames_fl fl_double (log 2) 65536 (3602879701896397 / 2 ^ 57) = Inr 640"
    by (simp add: num_frames_fl_def log_2_65536 fl_double_int then_fl_Inr py_int_def)
  show "num_frames_fl exact (log 2) 65536 (3602879701896397 / 2 ^ 57) = Inr 639"
    by (simp add: num_frames_fl_def log_2_65536 then_fl_exact py_int_def)
qed





section \<open>The frame cache\<close>

















end
